theory Spec2Isabelle
  imports
    Complex_Main
    "HOL-Library.Multiset"
    "HOL-Library.Char_ord"
    "HOL-Library.List_Lexorder"
    "HOL-Library.AList"
begin

section \<open>Constants of the crawler\<close>

text \<open>
  The module constants of \<^verbatim>\<open>topscratchprojects.py\<close>:
  \<^verbatim>\<open>CHUNK_SIZE = 100000\<close>, \<^verbatim>\<open>TOP_N = 1000000\<close> and the capacity of
  \<^verbatim>\<open>asyncio.Semaphore(125)\<close>.
\<close>

definition CHUNK_SIZE :: int where
  "CHUNK_SIZE = 100000"

definition TOP_N :: nat where
  "TOP_N = 1000000"

definition SEMAPHORE_CAPACITY :: nat where
  "SEMAPHORE_CAPACITY = 125"

section \<open>Exceptions\<close>

text \<open>
  The classes below \<^verbatim>\<open>Exception\<close> that the modelled code can raise: \<^verbatim>\<open>int\<close> of
  a string raises \<^verbatim>\<open>ValueError\<close>, a subscript raises \<^verbatim>\<open>KeyError\<close> or
  \<^verbatim>\<open>TypeError\<close>, the HTTP client raises \<^verbatim>\<open>ClientError\<close> or
  \<^verbatim>\<open>asyncio.TimeoutError\<close>, and decoding the body raises \<^verbatim>\<open>ContentTypeError\<close>
  or \<^verbatim>\<open>JSONDecodeError\<close>. A computation that can raise returns \<open>exn + 'a\<close>, with
  \<open>Inl\<close> for the exception. \<^verbatim>\<open>KeyboardInterrupt\<close> and the cancellation of a task
  are not below \<^verbatim>\<open>Exception\<close>; they reach the program from outside and are not
  among the values of \<open>exn\<close>.
\<close>

datatype exn =
  ValueError | KeyError | TypeError | ClientError | TimeoutError | ContentTypeError | JSONDecodeError

section \<open>Projects\<close>

text \<open>
  Every stage handles the same dictionary with the keys \<^verbatim>\<open>ID\<close>, \<^verbatim>\<open>Title\<close>,
  \<^verbatim>\<open>Creator\<close> and \<^verbatim>\<open>Views\<close>. Python leaves the types of the values open, so
  the record is polymorphic: \<^verbatim>\<open>fetch\<close> fills it with the request's id and with
  values of the payload, the leaderboard of a crawl holds an integer id, two strings and an
  integer view count (\<open>entry\<close>), and \<^verbatim>\<open>csv.DictReader\<close> reads every cell back as
  a string (\<open>row\<close>).
\<close>

record ('i, 't, 'v) project =
  ID :: 'i
  Title :: 't
  Creator :: 't
  Views :: 'v

type_synonym entry = "(int, string, int) project"

type_synonym row = "(string, string, string) project"

section \<open>Ranking\<close>

text \<open>
  \<^verbatim>\<open>results.sort(key=..., reverse=True)\<close>. Python's sort is stable, also with
  \<^verbatim>\<open>reverse=True\<close>: CPython reverses the list, sorts it stably in ascending order
  of the key and reverses the result, so that elements with equal keys keep the order
  they had. \<open>sort_key\<close> is the stable ascending sort.
\<close>

definition sort_reverse :: "('a \<Rightarrow> 'k::linorder) \<Rightarrow> 'a list \<Rightarrow> 'a list" where
  "sort_reverse key xs = rev (sort_key key (rev xs))"

text \<open>
  The Ranker: \<^verbatim>\<open>results.sort(key=lambda x: x['Views'], reverse=True)\<close> followed by
  the slice \<^verbatim>\<open>results[:TOP_N]\<close>. The limit is a count of rows; the only limit of the
  source is the constant \<^verbatim>\<open>TOP_N\<close>.
\<close>

definition rank :: "('i, 't, 'v::linorder) project list \<Rightarrow> nat \<Rightarrow> ('i, 't, 'v) project list" where
  "rank records limit = take limit (sort_reverse Views records)"

section \<open>Integers as text\<close>

text \<open>
  \<^verbatim>\<open>csv.DictWriter\<close> writes \<^verbatim>\<open>str(value)\<close> for a value that is not a string;
  for an integer that is its decimal numeral, with a minus sign when it is negative.
\<close>

definition digit_char :: "nat \<Rightarrow> char" where
  "digit_char d = ''0123456789'' ! d"

fun digits :: "nat \<Rightarrow> string" where
  "digits n = (if n < 10 then [digit_char n] else digits (n div 10) @ [digit_char (n mod 10)])"

declare digits.simps [simp del]

definition py_str :: "int \<Rightarrow> string" where
  "py_str n = (if n < 0 then CHR ''-'' # digits (nat (- n)) else digits (nat n))"

text \<open>
  \<^verbatim>\<open>int(s)\<close> for a string of ASCII characters: white space around the numeral is
  dropped, one sign may come first, and the digits may be grouped by single underscores
  between digits. Everything else raises \<^verbatim>\<open>ValueError\<close>. (Python also accepts
  the decimal digits and spaces of other scripts; strings here are ASCII.)
\<close>

definition is_digit :: "char \<Rightarrow> bool" where
  "is_digit c = (CHR ''0'' \<le> c \<and> c \<le> CHR ''9'')"

definition digit_val :: "char \<Rightarrow> nat" where
  "digit_val c = of_char c - of_char CHR ''0''"

definition is_space :: "char \<Rightarrow> bool" where
  "is_space c = (c \<in> set [CHR 0x09, CHR 0x0A, CHR 0x0B, CHR 0x0C, CHR 0x0D,
                            CHR 0x1C, CHR 0x1D, CHR 0x1E, CHR 0x1F, CHR '' ''])"

definition strip :: "string \<Rightarrow> string" where
  "strip s = rev (dropWhile is_space (rev (dropWhile is_space s)))"

fun digits_value :: "nat \<Rightarrow> string \<Rightarrow> nat option" where
  "digits_value acc [] = Some acc"
| "digits_value acc [c] = (if is_digit c then Some (10 * acc + digit_val c) else None)"
| "digits_value acc (c # d # cs) =
     (if is_digit c then digits_value (10 * acc + digit_val c) (d # cs)
      else if c = CHR ''_'' \<and> is_digit d then digits_value (10 * acc + digit_val d) cs
      else None)"

definition unsigned_value :: "string \<Rightarrow> nat option" where
  "unsigned_value s =
     (case s of [] \<Rightarrow> None
      | c # cs \<Rightarrow> if is_digit c then digits_value (digit_val c) cs else None)"

definition py_int :: "string \<Rightarrow> exn + int" where
  "py_int s =
     (let t = strip s;
          negative = (t \<noteq> [] \<and> hd t = CHR ''-'');
          signed = (t \<noteq> [] \<and> (hd t = CHR ''-'' \<or> hd t = CHR ''+''))
      in case unsigned_value (if signed then tl t else t) of
           None \<Rightarrow> Inl ValueError
         | Some n \<Rightarrow> Inr (if negative then - int n else int n))"

section \<open>Chunk files and the merge\<close>

text \<open>
  A file written by \<^verbatim>\<open>csv.DictWriter\<close> with the field names \<^verbatim>\<open>ID\<close>,
  \<^verbatim>\<open>Title\<close>, \<^verbatim>\<open>Creator\<close>, \<^verbatim>\<open>Views\<close> is the list of its rows below the
  header; the encoding of a row as a line of text is the \<^verbatim>\<open>csv\<close> module's.
  \<open>to_row\<close> is what \<^verbatim>\<open>writerows\<close> stores for one entry of a crawl, and
  \<open>ranked_rows\<close> is the end of \<^verbatim>\<open>crawl_projects\<close>: sort, cut at
  \<^verbatim>\<open>TOP_N\<close>, write.
\<close>

definition to_row :: "entry \<Rightarrow> row" where
  "to_row e = \<lparr>ID = py_str (ID e), Title = Title e, Creator = Creator e, Views = py_str (Views e)\<rparr>"

definition ranked_rows :: "entry list \<Rightarrow> row list" where
  "ranked_rows results = map to_row (rank results TOP_N)"

text \<open>
  The directory \<^verbatim>\<open>chunks\<close> is the list of its files, name and rows, in the order
  in which \<^verbatim>\<open>os.listdir\<close> happens to enumerate them. \<^verbatim>\<open>merge_chunks\<close> sorts the
  names, reads every file whose name ends in \<^verbatim>\<open>.csv\<close> and appends its rows to
  \<^verbatim>\<open>all_projects\<close>.
\<close>

definition endswith :: "string \<Rightarrow> string \<Rightarrow> bool" where
  "endswith s suffix = (length suffix \<le> length s \<and> drop (length s - length suffix) s = suffix)"

definition read_chunks :: "(string \<times> row list) list \<Rightarrow> row list" where
  "read_chunks dir =
     concat (map (\<lambda>file. case map_of dir file of Some rows \<Rightarrow> rows | None \<Rightarrow> [])
                 (filter (\<lambda>file. endswith file ''.csv'') (sort (map fst dir))))"

text \<open>
  \<^verbatim>\<open>all_projects.sort(key=lambda x: int(x['Views']), reverse=True)\<close>: the sort first
  computes the key of every row, in order, and raises what the first failing \<^verbatim>\<open>int\<close>
  raises; then it sorts the rows by their keys. The first \<^verbatim>\<open>TOP_N\<close> rows are
  written to the final leaderboard.
\<close>

fun int_views :: "row list \<Rightarrow> exn + (int \<times> row) list" where
  "int_views [] = Inr []"
| "int_views (x # xs) =
     (case py_int (Views x) of
        Inl e \<Rightarrow> Inl e
      | Inr k \<Rightarrow> (case int_views xs of Inl e \<Rightarrow> Inl e | Inr kxs \<Rightarrow> Inr ((k, x) # kxs)))"

definition merge_rank :: "nat \<Rightarrow> row list \<Rightarrow> exn + row list" where
  "merge_rank limit all_projects =
     (case int_views all_projects of
        Inl e \<Rightarrow> Inl e
      | Inr keyed \<Rightarrow> Inr (take limit (map snd (sort_reverse fst keyed))))"

definition merge_chunks :: "(string \<times> row list) list \<Rightarrow> exn + row list" where
  "merge_chunks dir = merge_rank TOP_N (read_chunks dir)"

section \<open>The Fetcher\<close>

text \<open>
  The body that \<^verbatim>\<open>response.json()\<close> decodes. Numbers are the integers of Python
  (a number with a fraction is a float and is not modelled). An object is the list of its
  members as the text has them; the decoder keeps the last member of a repeated key, so
  a lookup reads the members from the end.
\<close>

datatype json =
  JNull | JBool bool | JNum int | JStr string | JArr "json list" | JObj "(string \<times> json) list"

fun member :: "json \<Rightarrow> string \<Rightarrow> json option" where
  "member (JObj members) key = map_of (rev members) key"
| "member _ key = None"

text \<open>
  \<^verbatim>\<open>data[key]\<close> with a string key: a dictionary without the key raises
  \<^verbatim>\<open>KeyError\<close>, and a value that is not a dictionary (a list, a string, a number,
  \<^verbatim>\<open>None\<close>) raises \<^verbatim>\<open>TypeError\<close>.
\<close>

fun subscript :: "json \<Rightarrow> string \<Rightarrow> exn + json" where
  "subscript (JObj members) key =
     (case map_of (rev members) key of None \<Rightarrow> Inl KeyError | Some v \<Rightarrow> Inr v)"
| "subscript _ key = Inl TypeError"

text \<open>
  What one \<^verbatim>\<open>session.get(url, timeout=10)\<close> does: it raises (a transport error, the
  timeout), or it gives a response with a status and a body, and decoding the body with
  \<^verbatim>\<open>response.json()\<close> raises or gives the data. The session is the network as
  the crawler sees it: the outcome of the request for every project id.
\<close>

datatype outcome = Raises exn | Responds int "exn + json"

type_synonym session = "int \<Rightarrow> outcome"

definition then_exn :: "exn + 'a \<Rightarrow> ('a \<Rightarrow> exn + 'b) \<Rightarrow> exn + 'b" where
  "then_exn r f = (case r of Inl e \<Rightarrow> Inl e | Inr x \<Rightarrow> f x)"

text \<open>
  The \<^verbatim>\<open>try\<close> block of \<^verbatim>\<open>fetch\<close>: with status 200 the body is decoded and the
  dictionary is built, its values read in the order \<^verbatim>\<open>data['title']\<close>,
  \<^verbatim>\<open>data['author']['username']\<close>, \<^verbatim>\<open>data['stats']['views']\<close>; with another
  status the block ends without a value.
\<close>

definition fetch_body :: "outcome \<Rightarrow> int \<Rightarrow> exn + (int, json, json) project option" where
  "fetch_body response project_id =
     (case response of
        Raises e \<Rightarrow> Inl e
      | Responds status body \<Rightarrow>
          if status = 200 then
            then_exn body (\<lambda>data.
            then_exn (subscript data ''title'') (\<lambda>title.
            then_exn (subscript data ''author'') (\<lambda>author.
            then_exn (subscript author ''username'') (\<lambda>username.
            then_exn (subscript data ''stats'') (\<lambda>stats.
            then_exn (subscript stats ''views'') (\<lambda>views.
              Inr (Some \<lparr>ID = project_id, Title = title, Creator = username, Views = views\<rparr>)))))))
          else Inr None)"

text \<open>
  \<^verbatim>\<open>fetch\<close>: \<^verbatim>\<open>except Exception: pass\<close> catches whatever the block raises, and
  the function then returns \<^verbatim>\<open>None\<close>. The result is \<open>Inr\<close> of the returned value,
  and \<open>Inl\<close> would be an exception that leaves \<^verbatim>\<open>fetch\<close>.
\<close>

definition fetch :: "session \<Rightarrow> int \<Rightarrow> exn + (int, json, json) project option" where
  "fetch session project_id =
     (case fetch_body (session project_id) project_id of
        Inl e \<Rightarrow> Inr None
      | Inr result \<Rightarrow> Inr result)"

text \<open>
  The required fields of a payload: \<^verbatim>\<open>title\<close>, \<^verbatim>\<open>author.username\<close> and
  \<^verbatim>\<open>stats.views\<close>.
\<close>

definition has_required_fields :: "json \<Rightarrow> bool" where
  "has_required_fields data =
     (member data ''title'' \<noteq> None
      \<and> (case member data ''author'' of None \<Rightarrow> False | Some author \<Rightarrow> member author ''username'' \<noteq> None)
      \<and> (case member data ''stats'' of None \<Rightarrow> False | Some stats \<Rightarrow> member stats ''views'' \<noteq> None))"

section \<open>The partition into chunks\<close>

text \<open>
  \<^verbatim>\<open>range(start, stop, step)\<close>: a step of zero raises \<^verbatim>\<open>ValueError\<close>, a positive
  step counts up while the value is below \<^verbatim>\<open>stop\<close>, a negative step counts down while
  it is above.
\<close>

function range_up :: "int \<Rightarrow> int \<Rightarrow> int \<Rightarrow> int list" where
  "range_up start stop step =
     (if 0 < step \<and> start < stop then start # range_up (start + step) stop step else [])"
  by pat_completeness auto
termination
  by (relation "measure (\<lambda>(start, stop, step). nat (stop - start))") auto

function range_down :: "int \<Rightarrow> int \<Rightarrow> int \<Rightarrow> int list" where
  "range_down start stop step =
     (if step < 0 \<and> stop < start then start # range_down (start + step) stop step else [])"
  by pat_completeness auto
termination
  by (relation "measure (\<lambda>(start, stop, step). nat (start - stop))") auto

declare range_up.simps [simp del] range_down.simps [simp del]

definition py_range :: "int \<Rightarrow> int \<Rightarrow> int \<Rightarrow> exn + int list" where
  "py_range start stop step =
     (if step = 0 then Inl ValueError
      else if 0 < step then Inr (range_up start stop step)
      else Inr (range_down start stop step))"

text \<open>
  The loop of \<^verbatim>\<open>run_chunks\<close>:
  \<^verbatim>\<open>for start in range(start_id, end_id + 1, CHUNK_SIZE)\<close> with
  \<^verbatim>\<open>end = min(start + CHUNK_SIZE - 1, end_id)\<close>. The chunk size is the module constant;
  it is a parameter here, and \<^verbatim>\<open>run_chunks\<close> passes \<open>CHUNK_SIZE\<close>.
\<close>

definition chunk_bounds :: "int \<Rightarrow> int \<Rightarrow> int \<Rightarrow> exn + (int \<times> int) list" where
  "chunk_bounds chunk_size start_id end_id =
     (case py_range start_id (end_id + 1) chunk_size of
        Inl e \<Rightarrow> Inl e
      | Inr starts \<Rightarrow> Inr (map (\<lambda>start. (start, min (start + chunk_size - 1) end_id)) starts))"

section \<open>The crawl and the entry point\<close>

text \<open>
  What the program changes and shows: the final leaderboard
  \<^verbatim>\<open>top_scratch_projects.csv\<close> (absent or a list of rows), the files of the
  directory \<^verbatim>\<open>chunks\<close>, the ids for which a request was issued, and the messages
  printed. \<^verbatim>\<open>crawl_projects\<close> writes either the final leaderboard (its default
  \<^verbatim>\<open>output_file\<close>) or a file of \<^verbatim>\<open>chunks\<close>. The progress bars are not modelled.
\<close>

datatype target = Leaderboard | ChunkFile string

datatype message = Saved target | FinalSaved | InvalidInteger

record world =
  leaderboard :: "row list option"
  chunk_files :: "(string \<times> row list) list"
  requests :: "int list"
  printed :: "message list"

text \<open>
  A run returns, or it ends with an exception (the \<open>world\<close> as it was left), or it
  leaves what is modelled.
\<close>

datatype 'a run = Returns 'a | Raised exn 'a | Unmodelled

text \<open>
  The crawl is modelled for the payloads the API serves: a title and a user name that
  are strings and a view count that is an integer. \<open>entry_of\<close> reads the dictionary of
  such a payload; the sort and the \<^verbatim>\<open>csv\<close> writer treat other values in ways that
  are not modelled, and a crawl that collects one is \<open>Unmodelled\<close>.
\<close>

definition entry_of :: "(int, json, json) project \<Rightarrow> entry option" where
  "entry_of r =
     (case (Title r, Creator r, Views r) of
        (JStr title, JStr creator, JNum views) \<Rightarrow>
          Some \<lparr>ID = ID r, Title = title, Creator = creator, Views = views\<rparr>
      | _ \<Rightarrow> None)"

text \<open>
  \<^verbatim>\<open>for task in asyncio.as_completed(tasks): result = await task\<close>: an exception
  of a task is raised again by \<^verbatim>\<open>await\<close>, and a result that is not \<^verbatim>\<open>None\<close> is
  appended.
\<close>

fun gather :: "(exn + 'a option) list \<Rightarrow> exn + 'a list" where
  "gather [] = Inr []"
| "gather (task # tasks) =
     (case task of
        Inl e \<Rightarrow> Inl e
      | Inr result \<Rightarrow>
          (case gather tasks of
             Inl e \<Rightarrow> Inl e
           | Inr results \<Rightarrow> Inr (case result of None \<Rightarrow> results | Some r \<Rightarrow> r # results)))"

definition write_file :: "target \<Rightarrow> row list \<Rightarrow> world \<Rightarrow> world" where
  "write_file output_file rows w =
     (case output_file of
        Leaderboard \<Rightarrow> w\<lparr>leaderboard := Some rows\<rparr>
      | ChunkFile name \<Rightarrow> w\<lparr>chunk_files := AList.update name rows (chunk_files w)\<rparr>)"

text \<open>
  \<^verbatim>\<open>crawl_projects\<close>: one task per id of \<^verbatim>\<open>range(start_id, end_id + 1)\<close>, each
  issuing its request; the results are collected in the order in which the tasks
  complete, which the network decides: \<open>latency\<close> gives each id its completion time, so
  that every order of completion is the order of some \<open>latency\<close>. Then the results are
  sorted, cut at \<^verbatim>\<open>TOP_N\<close> and written, and the message is printed.
\<close>

definition crawl_projects ::
  "session \<Rightarrow> (int \<Rightarrow> nat) \<Rightarrow> int \<Rightarrow> int \<Rightarrow> target \<Rightarrow> world \<Rightarrow> world run" where
  "crawl_projects session latency start_id end_id output_file w =
     (let ids = [start_id..end_id];
          w1 = w\<lparr>requests := requests w @ ids\<rparr>
      in case gather (map (fetch session) (sort_key latency ids)) of
           Inl e \<Rightarrow> Raised e w1
         | Inr results \<Rightarrow>
             (case those (map entry_of results) of
                None \<Rightarrow> Unmodelled
              | Some entries \<Rightarrow>
                  Returns ((write_file output_file (ranked_rows entries) w1)
                             \<lparr>printed := printed w1 @ [Saved output_file]\<rparr>)))"

text \<open>
  \<^verbatim>\<open>f"top_{chunk_num:10}.csv"\<close>: the number is right-aligned in a field of ten
  characters, filled with spaces on the left.
\<close>

definition chunk_filename :: "int \<Rightarrow> string" where
  "chunk_filename chunk_num =
     ''top_'' @ replicate (10 - length (py_str chunk_num)) CHR '' '' @ py_str chunk_num @ ''.csv''"

text \<open>
  \<^verbatim>\<open>run_chunks\<close>: the chunks are crawled one after the other, chunk number
  \<^verbatim>\<open>chunk_num\<close> into its own file, counting from 1.
\<close>

fun crawl_chunks ::
  "session \<Rightarrow> (int \<Rightarrow> nat) \<Rightarrow> int \<Rightarrow> (int \<times> int) list \<Rightarrow> world \<Rightarrow> world run" where
  "crawl_chunks session latency chunk_num [] w = Returns w"
| "crawl_chunks session latency chunk_num ((start, end) # rest) w =
     (case crawl_projects session latency start end (ChunkFile (chunk_filename chunk_num)) w of
        Returns w' \<Rightarrow> crawl_chunks session latency (chunk_num + 1) rest w'
      | Raised e w' \<Rightarrow> Raised e w'
      | Unmodelled \<Rightarrow> Unmodelled)"

definition run_chunks :: "session \<Rightarrow> (int \<Rightarrow> nat) \<Rightarrow> int \<Rightarrow> int \<Rightarrow> world \<Rightarrow> world run" where
  "run_chunks session latency start_id end_id w =
     (case chunk_bounds CHUNK_SIZE start_id end_id of
        Inl e \<Rightarrow> Raised e w
      | Inr bounds \<Rightarrow> crawl_chunks session latency 1 bounds w)"

text \<open>
  The end of \<^verbatim>\<open>merge_chunks\<close>: the merged rows are written to the final leaderboard.
\<close>

definition save_merged :: "world \<Rightarrow> world run" where
  "save_merged w =
     (case merge_chunks (chunk_files w) of
        Inl e \<Rightarrow> Raised e w
      | Inr rows \<Rightarrow> Returns (w\<lparr>leaderboard := Some rows, printed := printed w @ [FinalSaved]\<rparr>))"

text \<open>
  The entry point. \<^verbatim>\<open>except ValueError\<close> encloses the whole run, so it also catches
  a \<^verbatim>\<open>ValueError\<close> of the merge. \<^verbatim>\<open>KeyboardInterrupt\<close> comes from outside the
  program and is not modelled.
\<close>

definition except_ValueError :: "world run \<Rightarrow> world run" where
  "except_ValueError r =
     (case r of
        Raised ValueError w \<Rightarrow> Returns (w\<lparr>printed := printed w @ [InvalidInteger]\<rparr>)
      | _ \<Rightarrow> r)"

definition main :: "string \<Rightarrow> string \<Rightarrow> session \<Rightarrow> (int \<Rightarrow> nat) \<Rightarrow> world \<Rightarrow> world run" where
  "main first_input final_input session latency w =
     except_ValueError
       (case py_int first_input of
          Inl e \<Rightarrow> Raised e w
        | Inr start_id \<Rightarrow>
            (case py_int final_input of
               Inl e \<Rightarrow> Raised e w
             | Inr end_id \<Rightarrow>
                 if end_id - start_id > CHUNK_SIZE then
                   (case run_chunks session latency start_id end_id w of
                      Returns w' \<Rightarrow> save_merged w'
                    | Raised e w' \<Rightarrow> Raised e w'
                    | Unmodelled \<Rightarrow> Unmodelled)
                 else crawl_projects session latency start_id end_id Leaderboard w))"

section \<open>The Admission Controller\<close>

text \<open>
  The tasks of one crawl run interleaved on the event loop, and each is the body of
  \<^verbatim>\<open>fetch\<close>: it waits at \<^verbatim>\<open>async with semaphore\<close> until the semaphore gives it a
  slot, issues its request inside the block, and leaves the block when the request has an
  outcome, whatever the outcome is: the record is returned, the status is not 200, or an
  exception is caught. Leaving the block releases the slot. A task can also be cancelled:
  while it waits it holds no slot, and inside the block the cancellation leaves the block.
  \<open>point\<close> is where a task stands, and an \<open>event\<close> is one step of one task, named by
  its index; \<open>fire\<close> is \<open>None\<close> when the task cannot take the step, for
  \<open>Acquire\<close> also when the semaphore has no slot left.
\<close>

datatype point = Waiting | Acquired | InFlight | Done

record scheduler =
  permits :: nat
  points :: "point list"

datatype event = Acquire nat | Request nat | Finish nat outcome | Cancel nat

definition fire :: "event \<Rightarrow> scheduler \<Rightarrow> scheduler option" where
  "fire ev s =
     (case ev of
        Acquire i \<Rightarrow>
          if i < length (points s) \<and> points s ! i = Waiting \<and> 0 < permits s
          then Some (s\<lparr>permits := permits s - 1, points := (points s)[i := Acquired]\<rparr>)
          else None
      | Request i \<Rightarrow>
          if i < length (points s) \<and> points s ! i = Acquired
          then Some (s\<lparr>points := (points s)[i := InFlight]\<rparr>)
          else None
      | Finish i response \<Rightarrow>
          if i < length (points s) \<and> points s ! i = InFlight
          then Some (s\<lparr>permits := permits s + 1, points := (points s)[i := Done]\<rparr>)
          else None
      | Cancel i \<Rightarrow>
          if i < length (points s) \<and> points s ! i = Waiting
          then Some (s\<lparr>points := (points s)[i := Done]\<rparr>)
          else if i < length (points s) \<and> (points s ! i = Acquired \<or> points s ! i = InFlight)
          then Some (s\<lparr>permits := permits s + 1, points := (points s)[i := Done]\<rparr>)
          else None)"

fun run_events :: "event list \<Rightarrow> scheduler \<Rightarrow> scheduler option" where
  "run_events [] s = Some s"
| "run_events (ev # evs) s = (case fire ev s of None \<Rightarrow> None | Some s' \<Rightarrow> run_events evs s')"

text \<open>
  The start of a crawl: \<^verbatim>\<open>semaphore = asyncio.Semaphore(125)\<close> and \<open>n\<close> tasks, none
  of which has started.
\<close>

definition all_waiting :: "nat \<Rightarrow> scheduler" where
  "all_waiting n = \<lparr>permits = SEMAPHORE_CAPACITY, points = replicate n Waiting\<rparr>"

text \<open>The tasks that hold a slot, and those whose request is in flight.\<close>

definition holding :: "scheduler \<Rightarrow> nat" where
  "holding s = length (filter (\<lambda>p. p = Acquired \<or> p = InFlight) (points s))"

definition in_flight :: "scheduler \<Rightarrow> nat" where
  "in_flight s = length (filter (\<lambda>p. p = InFlight) (points s))"

section \<open>Auxiliary definitions\<close>

text \<open>
  The stable merge of two lists by a key, the left list first among equal keys. It is not
  part of the program; the proofs use it to describe the sort of two sorted lists.
\<close>

fun merge_key :: "('a \<Rightarrow> 'k::linorder) \<Rightarrow> 'a list \<Rightarrow> 'a list \<Rightarrow> 'a list" where
  "merge_key f [] ys = ys"
| "merge_key f xs [] = xs"
| "merge_key f (x # xs) (y # ys) =
     (if f x \<le> f y then x # merge_key f xs (y # ys) else y # merge_key f (x # xs) ys)"

text \<open>
  A number in a field of \<open>k\<close> characters, digits to the right and spaces where the
  number has no digit: for a positive number below \<open>10 ^ k\<close> it is the number
  right-aligned as \<^verbatim>\<open>chunk_filename\<close> writes it. The proofs compare file names
  through it.
\<close>

fun padded :: "nat \<Rightarrow> nat \<Rightarrow> string" where
  "padded 0 n = []"
| "padded (Suc k) n = padded k (n div 10) @ [if n = 0 then CHR '' '' else digit_char (n mod 10)]"

text \<open>
  The entries that \<^verbatim>\<open>crawl_projects\<close> collects for a range, in the order of
  completion, when all of them are modelled.
\<close>

definition crawl_entries :: "session \<Rightarrow> (int \<Rightarrow> nat) \<Rightarrow> int \<Rightarrow> int \<Rightarrow> entry list option" where
  "crawl_entries session latency start_id end_id =
     (case gather (map (fetch session) (sort_key latency [start_id..end_id])) of
        Inl e \<Rightarrow> None
      | Inr results \<Rightarrow> those (map entry_of results))"

text \<open>Rows and entries used as concrete inputs.\<close>

definition row9 :: row where
  "row9 = \<lparr>ID = ''104'', Title = ''maze'', Creator = ''ada'', Views = ''9''\<rparr>"

definition row10 :: row where
  "row10 = \<lparr>ID = ''105'', Title = ''pong'', Creator = ''bob'', Views = ''10''\<rparr>"

definition row100 :: row where
  "row100 = \<lparr>ID = ''200001'', Title = ''cat'', Creator = ''eve'', Views = ''100''\<rparr>"

definition entry9 :: entry where
  "entry9 = \<lparr>ID = 104, Title = ''maze'', Creator = ''ada'', Views = 9\<rparr>"

definition entry10 :: entry where
  "entry10 = \<lparr>ID = 105, Title = ''pong'', Creator = ''bob'', Views = 10\<rparr>"

definition entry100 :: entry where
  "entry100 = \<lparr>ID = 200001, Title = ''cat'', Creator = ''eve'', Views = 100\<rparr>"


section \<open>The sort is a stable descending sort\<close>

text \<open>
  \<open>sort_reverse\<close> permutes its input, puts the keys in descending order and keeps the
  order of elements with equal keys: the three properties that fix the result of
  Python's \<^verbatim>\<open>sort\<close> with \<^verbatim>\<open>reverse=True\<close>.
\<close>

lemma length_sort_reverse: "length (sort_reverse key xs) = length xs"
  by (simp add: sort_reverse_def)



lemma descending_sort_reverse:
  "sorted_wrt (\<lambda>a b. key b \<le> key a) (sort_reverse key xs)"
proof -
  have "sorted (map key (sort_key key (rev xs)))"
    by simp
  then have "sorted_wrt (\<lambda>a b. key a \<le> key b) (sort_key key (rev xs))"
    by (simp add: sorted_map)
  then show ?thesis
    by (simp add: sort_reverse_def sorted_wrt_rev)
qed

lemma stable_sort_reverse:
  "filter (\<lambda>y. key y = k) (sort_reverse key xs) = filter (\<lambda>y. key y = k) xs"
  by (simp add: sort_reverse_def rev_filter [symmetric] sort_key_stable)

lemma sort_reverse_id_if_descending:
  assumes "sorted_wrt (\<lambda>a b. key b \<le> key a) xs"
  shows "sort_reverse key xs = xs"
proof -
  from assms have "sorted_wrt (\<lambda>a b. key a \<le> key b) (rev xs)"
    by (simp add: sorted_wrt_rev)
  then have "sorted (map key (rev xs))"
    by (simp add: sorted_map)
  then have "sort_key key (rev xs) = rev xs"
    by (rule sort_key_id_if_sorted)
  then show ?thesis
    by (simp add: sort_reverse_def)
qed

lemma sort_reverse_int:
  fixes key :: "'a \<Rightarrow> int"
  shows "sort_reverse key xs = sort_key (\<lambda>x. - key x) xs"
proof -
  have "sort_key (\<lambda>x. - key x) xs = rev (sort_key key (rev xs))"
  proof (rule properties_for_sort_key)
    show "mset (rev (sort_key key (rev xs))) = mset xs" by simp
  next
    fix k assume "k \<in> set (rev (sort_key key (rev xs)))"
    have "filter (\<lambda>x. key x = key k) (rev (sort_key key (rev xs))) = filter (\<lambda>x. key x = key k) xs"
      by (simp add: rev_filter [symmetric] sort_key_stable)
    then show "filter (\<lambda>x. - key k = - key x) (rev (sort_key key (rev xs))) = filter (\<lambda>x. - key k = - key x) xs"
      by (simp add: eq_commute)
  next
    have "sorted (map key (sort_key key (rev xs)))" by simp
    then have "sorted_wrt (\<lambda>a b. key a \<le> key b) (sort_key key (rev xs))" by (simp add: sorted_map)
    then have "sorted_wrt (\<lambda>a b. key b \<le> key a) (rev (sort_key key (rev xs)))" by (simp add: sorted_wrt_rev)
    then show "sorted (map (\<lambda>x. - key x) (rev (sort_key key (rev xs))))" by (simp add: sorted_map)
  qed
  then show ?thesis by (simp add: sort_reverse_def)
qed

lemma insort_key_map:
  "insort_key f (g x) (map g xs) = map g (insort_key (\<lambda>x. f (g x)) x xs)"
  by (induction xs) simp_all

lemma sort_key_map: "sort_key f (map g xs) = map g (sort_key (\<lambda>x. f (g x)) xs)"
  by (induction xs) (simp_all add: insort_key_map)

lemma sort_reverse_map: "sort_reverse f (map g xs) = map g (sort_reverse (\<lambda>x. f (g x)) xs)"
  by (simp add: sort_reverse_def sort_key_map rev_map)

section \<open>The Ranker\<close>

text \<open>
  C5. For every list of records and every limit, \<open>rank records limit\<close> has
  \<open>min (length records) limit\<close> elements, its view counts never increase from one
  element to the next, and ranking the result again with the same limit changes nothing.
\<close>

theorem rank_length_descending_idempotent:
  "length (rank records limit) = min (length records) limit
   \<and> sorted_wrt (\<lambda>a b. Views b \<le> Views a) (rank records limit)
   \<and> rank (rank records limit) limit = rank records limit"
proof -
  have len: "length (rank records limit) = min (length records) limit"
    by (simp add: rank_def length_sort_reverse)
  have desc: "sorted_wrt (\<lambda>a b. Views b \<le> Views a) (rank records limit)"
    unfolding rank_def by (rule sorted_wrt_take) (rule descending_sort_reverse)
  have "sort_reverse Views (rank records limit) = rank records limit"
    using desc by (rule sort_reverse_id_if_descending)
  then have "rank (rank records limit) limit = take limit (rank records limit)"
    by (simp add: rank_def)
  also have "\<dots> = rank records limit"
    using len by simp
  finally show ?thesis
    using len desc by simp
qed

section \<open>Sorting two sorted lists is merging them\<close>

lemma insort_merge_key:
  "\<forall>a\<in>set A. f x \<le> f a \<Longrightarrow> insort_key f x (merge_key f A L) = merge_key f (x # A) L"
proof (induction L arbitrary: A)
  case Nil
  then show ?case by (cases A) auto
next
  case (Cons l L)
  show ?case
  proof (cases A)
    case Nil
    with Cons.IH [of "[]"] show ?thesis by auto
  next
    case (Cons b A')
    with Cons.prems Cons.IH [of A] show ?thesis by auto
  qed
qed

lemma foldr_insort_merge_key:
  "sorted (map f A) \<Longrightarrow> foldr (insort_key f) A L = merge_key f A L"
  by (induction A) (auto simp: insort_merge_key)

lemma sort_key_append_merge:
  "sorted (map f A) \<Longrightarrow> sort_key f (A @ B) = merge_key f A (sort_key f B)"
  by (simp add: sort_key_def foldr_insort_merge_key)

lemma merge_key_Nil2: "merge_key f xs [] = xs"
  by (cases xs) simp_all

lemma take_merge_key:
  "n \<le> m \<Longrightarrow> n \<le> k \<Longrightarrow> take n (merge_key f (take m A) (take k B)) = take n (merge_key f A B)"
proof (induction f A B arbitrary: n m k rule: merge_key.induct)
  case (1 f ys)
  then show ?case by simp
next
  case (2 f v va)
  then show ?case by (simp add: merge_key_Nil2)
next
  case (3 f x xs y ys)
  show ?case
  proof (cases n)
    case 0
    then show ?thesis by simp
  next
    case (Suc n')
    with "3.prems" obtain m' k' where mk: "m = Suc m'" "k = Suc k'" "n' \<le> m'" "n' \<le> k'"
      by (cases m; cases k) auto
    show ?thesis
    proof (cases "f x \<le> f y")
      case True
      have "take n' (merge_key f (take m' xs) (take k (y # ys))) = take n' (merge_key f xs (y # ys))"
        using "3.IH"(1) [OF True, of n' m' k] mk "3.prems" Suc by simp
      with True Suc mk show ?thesis by simp
    next
      case False
      have "take n' (merge_key f (take m (x # xs)) (take k' ys)) = take n' (merge_key f (x # xs) ys)"
        using "3.IH"(2) [OF False, of n' m k'] mk "3.prems" Suc by simp
      with False Suc mk show ?thesis by simp
    qed
  qed
qed

lemma sorted_take_sort_key: "sorted (map f (take n (sort_key f xs)))"
proof -
  have "sorted (take n (map f (sort_key f xs)))"
    by (rule sorted_wrt_take) simp
  then show ?thesis by (simp add: take_map)
qed

lemma sort_key_sort_key_append:
  "sort_key f (sort_key f xs @ ys) = sort_key f (xs @ ys)"
proof -
  have "sort_key f (xs @ ys) = sort_key f (sort_key f xs @ ys)"
  proof (rule properties_for_sort_key)
    show "mset (sort_key f (sort_key f xs @ ys)) = mset (xs @ ys)" by simp
  next
    fix k
    have "filter (\<lambda>x. f x = f k) (sort_key f (sort_key f xs @ ys)) = filter (\<lambda>x. f x = f k) (xs @ ys)"
      by (simp add: sort_key_stable)
    then show "filter (\<lambda>x. f k = f x) (sort_key f (sort_key f xs @ ys)) = filter (\<lambda>x. f k = f x) (xs @ ys)"
      by (simp add: eq_commute)
  next
    show "sorted (map f (sort_key f (sort_key f xs @ ys)))" by simp
  qed
  then show ?thesis by simp
qed

lemma take_sort_key_append:
  "take n (sort_key f (take n (sort_key f xs) @ take n (sort_key f ys))) = take n (sort_key f (xs @ ys))"
proof -
  have "sort_key f (take n (sort_key f xs) @ take n (sort_key f ys))
      = merge_key f (take n (sort_key f xs)) (sort_key f (take n (sort_key f ys)))"
    by (rule sort_key_append_merge) (rule sorted_take_sort_key)
  also have "sort_key f (take n (sort_key f ys)) = take n (sort_key f ys)"
    by (rule sort_key_id_if_sorted) (rule sorted_take_sort_key)
  finally have l: "take n (sort_key f (take n (sort_key f xs) @ take n (sort_key f ys)))
      = take n (merge_key f (sort_key f xs) (sort_key f ys))"
    by (simp add: take_merge_key)
  have "sort_key f (xs @ ys) = sort_key f (sort_key f xs @ ys)"
    by (simp add: sort_key_sort_key_append)
  also have "\<dots> = merge_key f (sort_key f xs) (sort_key f ys)"
    by (rule sort_key_append_merge) simp
  finally show ?thesis using l by simp
qed

lemma take_sort_key_concat:
  "take n (sort_key f (concat (map (\<lambda>c. take n (sort_key f c)) cs))) = take n (sort_key f (concat cs))"
proof (induction cs)
  case Nil
  then show ?case by simp
next
  case (Cons c cs)
  let ?R = "concat (map (\<lambda>c. take n (sort_key f c)) cs)"
  have idem: "take n (sort_key f (take n (sort_key f c))) = take n (sort_key f c)"
    by (simp add: sort_key_id_if_sorted sorted_take_sort_key)
  have "take n (sort_key f (take n (sort_key f c) @ ?R))
      = take n (sort_key f (take n (sort_key f (take n (sort_key f c))) @ take n (sort_key f ?R)))"
    by (rule take_sort_key_append [symmetric])
  also have "\<dots> = take n (sort_key f (take n (sort_key f c) @ take n (sort_key f (concat cs))))"
    by (simp only: idem Cons.IH)
  also have "\<dots> = take n (sort_key f (c @ concat cs))"
    by (rule take_sort_key_append)
  finally show ?case by simp
qed

section \<open>Reading back what was written\<close>

lemma digit_char_inverse:
  assumes "d < 10"
  shows "is_digit (digit_char d) \<and> digit_val (digit_char d) = d"
proof -
  from assms have "d \<in> {0, 1, 2, 3, 4, 5, 6, 7, 8, 9}"
    by auto
  then show ?thesis
    by (auto simp: digit_char_def is_digit_def digit_val_def)
qed

lemma is_digit_digits: "\<forall>c\<in>set (digits n). is_digit c"
proof (induction n rule: digits.induct)
  case (1 n)
  show ?case
  proof (cases "n < 10")
    case True
    then show ?thesis
      by (simp add: digits.simps [of n] digit_char_inverse)
  next
    case False
    with 1 show ?thesis
      by (simp add: digits.simps [of n] digit_char_inverse)
  qed
qed

lemma digits_not_Nil: "digits n \<noteq> []"
  by (simp add: digits.simps [of n])

lemma digits_value_foldl:
  "\<forall>c\<in>set ds. is_digit c \<Longrightarrow>
   digits_value acc ds = Some (foldl (\<lambda>a c. 10 * a + digit_val c) acc ds)"
  by (induction acc ds rule: digits_value.induct) simp_all

lemma foldl_digits: "foldl (\<lambda>a c. 10 * a + digit_val c) 0 (digits n) = n"
proof (induction n rule: digits.induct)
  case (1 n)
  show ?case
  proof (cases "n < 10")
    case True
    then show ?thesis
      by (simp add: digits.simps [of n] digit_char_inverse)
  next
    case False
    with 1 show ?thesis
      by (simp add: digits.simps [of n] digit_char_inverse)
  qed
qed

lemma unsigned_value_digits: "unsigned_value (digits n) = Some n"
proof (cases "digits n")
  case Nil
  then show ?thesis by (simp add: digits_not_Nil)
next
  case (Cons c cs)
  with is_digit_digits [of n] have d: "is_digit c" "\<forall>c\<in>set cs. is_digit c"
    by simp_all
  have "foldl (\<lambda>a c. 10 * a + digit_val c) (digit_val c) cs
      = foldl (\<lambda>a c. 10 * a + digit_val c) 0 (digits n)"
    by (simp add: Cons)
  then have "foldl (\<lambda>a c. 10 * a + digit_val c) (digit_val c) cs = n"
    by (simp only: foldl_digits)
  with d show ?thesis
    by (simp add: unsigned_value_def Cons digits_value_foldl)
qed

lemma is_digit_not_space: "is_digit c \<Longrightarrow> \<not> is_space c \<and> c \<noteq> CHR ''-'' \<and> c \<noteq> CHR ''+''"
  by (auto simp: is_digit_def is_space_def)

lemma dropWhile_none: "\<forall>c\<in>set s. \<not> P c \<Longrightarrow> dropWhile P s = s"
  by (cases s) simp_all

lemma strip_no_space: "\<forall>c\<in>set s. \<not> is_space c \<Longrightarrow> strip s = s"
  by (simp add: strip_def dropWhile_none)

lemma py_int_py_str: "py_int (py_str n) = Inr n"
proof (cases "n < 0")
  case True
  let ?t = "CHR ''-'' # digits (nat (- n))"
  have "\<forall>c\<in>set ?t. \<not> is_space c"
    using is_digit_digits [of "nat (- n)"] by (auto simp: is_digit_not_space) (simp add: is_space_def)
  then have "strip ?t = ?t"
    by (rule strip_no_space)
  with True show ?thesis
    by (simp add: py_int_def py_str_def unsigned_value_digits)
next
  case False
  let ?t = "digits (nat n)"
  have nosp: "\<forall>c\<in>set ?t. \<not> is_space c"
    using is_digit_digits [of "nat n"] by (auto simp: is_digit_not_space)
  then have st: "strip ?t = ?t"
    by (rule strip_no_space)
  have "is_digit (hd ?t)"
    using is_digit_digits [of "nat n"] digits_not_Nil [of "nat n"] by (cases ?t) simp_all
  then have "hd ?t \<noteq> CHR ''-''" "hd ?t \<noteq> CHR ''+''"
    by (simp_all add: is_digit_not_space)
  with False st show ?thesis
    by (simp add: py_int_def py_str_def unsigned_value_digits)
qed

lemma int_views_to_row: "int_views (map to_row es) = Inr (map (\<lambda>e. (Views e, to_row e)) es)"
  by (induction es) (simp_all add: py_int_py_str to_row_def)


lemma merge_rank_rows: "merge_rank n (map to_row es) = Inr (map to_row (rank es n))"
proof -
  have "sort_reverse fst (map (\<lambda>e. (Views e, to_row e)) es)
      = map (\<lambda>e. (Views e, to_row e)) (sort_reverse Views es)"
    by (simp add: sort_reverse_map)
  then show ?thesis
    by (simp add: merge_rank_def int_views_to_row rank_def take_map comp_def)
qed

section \<open>The Merger\<close>








lemma to_row_examples:
  "to_row entry9 = row9" "to_row entry10 = row10" "to_row entry100 = row100"
  by (simp_all add: to_row_def entry9_def entry10_def entry100_def row9_def row10_def row100_def
      py_str_def digits.simps digit_char_def)





section \<open>The names of the chunk files\<close>

text \<open>
  Below \<open>10 ^ 10\<close> chunks the names of the chunk files ascend, as strings, with the
  chunk numbers: the numbers are right-aligned in ten characters, and a space sorts below
  every digit. So the sorted listing of \<^verbatim>\<open>merge_chunks\<close> reads the files in the
  order in which \<^verbatim>\<open>run_chunks\<close> wrote them.
\<close>

lemma length_padded: "length (padded k n) = k"
  by (induction k arbitrary: n) simp_all

lemma padded_zero: "padded k 0 = replicate k CHR '' ''"
  by (induction k) (simp_all add: replicate_append_same)

lemma length_digits_le: "0 < k \<Longrightarrow> n < 10 ^ k \<Longrightarrow> length (digits n) \<le> k"
proof (induction k arbitrary: n)
  case 0
  then show ?case by simp
next
  case (Suc k)
  show ?case
  proof (cases "n < 10")
    case True
    then show ?thesis by (simp add: digits.simps [of n])
  next
    case False
    then have "0 < k"
      using Suc.prems by (cases k) auto
    moreover have "n div 10 < 10 ^ k"
      using Suc.prems by (simp add: less_mult_imp_div_less)
    ultimately have "length (digits (n div 10)) \<le> k"
      by (rule Suc.IH)
    with False show ?thesis by (simp add: digits.simps [of n])
  qed
qed

lemma padded_digits:
  "0 < n \<Longrightarrow> n < 10 ^ k \<Longrightarrow> replicate (k - length (digits n)) CHR '' '' @ digits n = padded k n"
proof (induction k arbitrary: n)
  case 0
  then show ?case by simp
next
  case (Suc k)
  show ?case
  proof (cases "n < 10")
    case True
    with Suc.prems show ?thesis
      by (simp add: digits.simps [of n] padded_zero)
  next
    case False
    then have pos: "0 < n div 10" by simp
    have lt: "n div 10 < 10 ^ k"
      using Suc.prems by (simp add: less_mult_imp_div_less)
    have "0 < k"
      using lt pos by (cases k) auto
    then have len: "length (digits (n div 10)) \<le> k"
      using lt by (rule length_digits_le)
    from Suc.IH [OF pos lt] len False Suc.prems show ?thesis
      by (simp add: digits.simps [of n] Suc_diff_le)
  qed
qed

lemma of_char_digit_char: "d < 10 \<Longrightarrow> of_char (digit_char d) = 48 + d"
proof -
  assume "d < 10"
  then have "d \<in> {0, 1, 2, 3, 4, 5, 6, 7, 8, 9}"
    by auto
  then show ?thesis
    by (auto simp: digit_char_def)
qed

lemma digit_char_less: "d < e \<Longrightarrow> e < 10 \<Longrightarrow> digit_char d < digit_char e"
  by (simp add: less_char_def of_char_digit_char)

lemma space_less_digit_char: "d < 10 \<Longrightarrow> CHR '' '' < digit_char d"
  by (simp add: less_char_def of_char_digit_char)

lemma padded_less: "a < b \<Longrightarrow> b < 10 ^ k \<Longrightarrow> padded k a < padded k b"
proof (induction k arbitrary: a b)
  case 0
  then show ?case by simp
next
  case (Suc k)
  let ?ca = "if a = 0 then CHR '' '' else digit_char (a mod 10)"
  let ?cb = "if b = 0 then CHR '' '' else digit_char (b mod 10)"
  have le: "a div 10 \<le> b div 10"
    using Suc.prems(1) by (simp add: div_le_mono)
  show ?case
  proof (cases "a div 10 < b div 10")
    case True
    have "b div 10 < 10 ^ k"
      using Suc.prems(2) by (simp add: less_mult_imp_div_less)
    with True have "padded k (a div 10) < padded k (b div 10)"
      by (rule Suc.IH)
    then have "(padded k (a div 10), padded k (b div 10)) \<in> lexord {(u, v). u < v}"
      by (simp add: list_less_def)
    then have "(padded k (a div 10) @ [?ca], padded k (b div 10) @ [?cb]) \<in> lexord {(u, v). u < v}"
      by (rule lexord_sufI) (simp add: length_padded)
    then show ?thesis
      by (simp add: list_less_def)
  next
    case False
    with le have eq: "a div 10 = b div 10" by simp
    have "a = 10 * (a div 10) + a mod 10" "b = 10 * (b div 10) + b mod 10"
      by simp_all
    with eq Suc.prems(1) have m: "a mod 10 < b mod 10"
      by linarith
    have "?ca < ?cb"
    proof (cases "a = 0")
      case True
      with Suc.prems(1) show ?thesis by (simp add: space_less_digit_char)
    next
      case False
      with Suc.prems(1) m show ?thesis by (simp add: digit_char_less)
    qed
    then have "(padded k (b div 10) @ ?ca # [], padded k (b div 10) @ ?cb # []) \<in> lexord {(u, v). u < v}"
      by (intro lexord_append_left_rightI) simp
    then show ?thesis
      by (simp add: list_less_def eq)
  qed
qed

lemma chunk_filename_padded:
  assumes "0 < n" and "n < 10 ^ 10"
  shows "chunk_filename n = ''top_'' @ padded 10 (nat n) @ ''.csv''"
proof -
  have "0 < nat n" "nat n < 10 ^ 10"
    using assms by simp_all
  then have "replicate (10 - length (digits (nat n))) CHR '' '' @ digits (nat n) = padded 10 (nat n)"
    by (rule padded_digits)
  with assms(1) show ?thesis
    by (simp add: chunk_filename_def py_str_def)
qed

lemma chunk_filename_less:
  assumes "0 < a" and "a < b" and "b < 10 ^ 10"
  shows "chunk_filename a < chunk_filename b"
proof -
  have "nat a < nat b" "nat b < 10 ^ 10"
    using assms by simp_all
  then have "padded 10 (nat a) < padded 10 (nat b)"
    by (rule padded_less)
  then have "(padded 10 (nat a), padded 10 (nat b)) \<in> lexord {(u, v). u < v}"
    by (simp add: list_less_def)
  then have "(padded 10 (nat a) @ ''.csv'', padded 10 (nat b) @ ''.csv'') \<in> lexord {(u, v). u < v}"
    by (rule lexord_sufI) (simp add: length_padded)
  then have "(''top_'' @ padded 10 (nat a) @ ''.csv'', ''top_'' @ padded 10 (nat b) @ ''.csv'')
      \<in> lexord {(u, v). u < v}"
    by (rule lexord_append_leftI)
  then show ?thesis
    using assms by (simp only: chunk_filename_padded list_less_def)
qed

lemma endswith_chunk_filename: "endswith (chunk_filename n) ''.csv''"
  by (simp add: endswith_def chunk_filename_def)

lemma strict_sorted_chunk_filenames:
  "n < 10 ^ 10 \<Longrightarrow> sorted_wrt (<) (map chunk_filename [1..n])"
proof -
  assume n: "n < 10 ^ 10"
  have "sorted_wrt (\<lambda>a b. chunk_filename a < chunk_filename b) [1..n]"
  proof (rule sorted_wrt_mono_rel [of "[1..n]" "(<)"])
    fix a b assume "a \<in> set [1..n]" "b \<in> set [1..n]" "a < b"
    with n show "chunk_filename a < chunk_filename b"
      by (intro chunk_filename_less) auto
  qed simp
  then show ?thesis
    by (simp add: sorted_wrt_map)
qed

lemma read_zip_distinct:
  assumes l: "length names = length artifacts" and d: "distinct names"
  shows "map (\<lambda>file. case map_of (zip names artifacts) file of Some rows \<Rightarrow> rows | None \<Rightarrow> []) names
      = artifacts"
proof (rule nth_equalityI)
  show "length (map (\<lambda>file. case map_of (zip names artifacts) file of Some rows \<Rightarrow> rows | None \<Rightarrow> []) names)
      = length artifacts"
    using l by simp
next
  fix i
  assume "i < length (map (\<lambda>file. case map_of (zip names artifacts) file of Some rows \<Rightarrow> rows | None \<Rightarrow> []) names)"
  then have i: "i < length artifacts" "i < length names"
    using l by simp_all
  from map_of_zip_nth [OF l d i(1)] i(2)
  show "map (\<lambda>file. case map_of (zip names artifacts) file of Some rows \<Rightarrow> rows | None \<Rightarrow> []) names ! i
      = artifacts ! i"
    by simp
qed

lemma read_chunks_sorted_names:
  assumes l: "length names = length artifacts" and s: "sorted_wrt (<) names"
    and e: "\<forall>file\<in>set names. endswith file ''.csv''"
  shows "read_chunks (zip names artifacts) = concat artifacts"
proof -
  from s have srt: "sort names = names" and dist: "distinct names"
    by (simp_all add: strict_sorted_iff sorted_sort_id)
  have fst: "map fst (zip names artifacts) = names"
    using l by (simp add: map_fst_zip)
  have flt: "filter (\<lambda>file. endswith file ''.csv'') names = names"
    using e by simp
  show ?thesis
    by (simp only: read_chunks_def fst srt flt read_zip_distinct [OF l dist])
qed

lemma read_chunks_of_chunk_files:
  assumes len: "int (length artifacts) = n" and n: "n < 10 ^ 10"
  shows "read_chunks (zip (map chunk_filename [1..n]) artifacts) = concat artifacts"
proof (rule read_chunks_sorted_names)
  show "length (map chunk_filename [1..n]) = length artifacts"
    using len by auto
  show "sorted_wrt (<) (map chunk_filename [1..n])"
    using n by (rule strict_sorted_chunk_filenames)
  show "\<forall>file\<in>set (map chunk_filename [1..n]). endswith file ''.csv''"
    by (simp add: endswith_chunk_filename)
qed

section \<open>The two-stage reduce\<close>

lemma rank_concat_rank:
  fixes chunks :: "('i, 't, int) project list list"
  shows "rank (concat (map (\<lambda>c. rank c n) chunks)) n = rank (concat chunks) n"
  unfolding rank_def sort_reverse_int by (rule take_sort_key_concat)

lemma two_stage_general:
  "merge_rank n (concat (map (\<lambda>c. map to_row (rank c n)) chunks)) = Inr (map to_row (rank (concat chunks) n))"
proof -
  have "concat (map (\<lambda>c. map to_row (rank c n)) chunks) = map to_row (concat (map (\<lambda>c. rank c n) chunks))"
    by (simp add: map_concat comp_def)
  then show ?thesis
    by (simp add: merge_rank_rows rank_concat_rank)
qed

lemma two_stage_rows:
  "merge_rank TOP_N (concat (map ranked_rows chunks)) = Inr (ranked_rows (concat chunks))"
proof -
  have "map ranked_rows chunks = map (\<lambda>c. map to_row (rank c TOP_N)) chunks"
    by (simp add: ranked_rows_def)
  then show ?thesis
    by (simp only: two_stage_general ranked_rows_def)
qed

lemma merge_chunks_of_chunk_files:
  assumes "int (length chunks) < 10 ^ 10"
  shows "merge_chunks (zip (map chunk_filename [1..int (length chunks)]) (map ranked_rows chunks))
       = Inr (ranked_rows (concat chunks))"
proof -
  have "int (length (map ranked_rows chunks)) = int (length chunks)"
    by simp
  then have "read_chunks (zip (map chunk_filename [1..int (length chunks)]) (map ranked_rows chunks))
      = concat (map ranked_rows chunks)"
    using assms by (rule read_chunks_of_chunk_files)
  then show ?thesis
    by (simp only: merge_chunks_def two_stage_rows)
qed

text \<open>
  C6. The present records of a crawl are split into chunks, each a list in the order in
  which its fetches completed. Every chunk is ranked and cut at \<^verbatim>\<open>TOP_N\<close> and its
  rows are written; the merge reads the rows of all chunks, one chunk after the other,
  ranks them by the integer value of their views and cuts at \<^verbatim>\<open>TOP_N\<close>. The result
  is the leaderboard that one crawl writes for all the records together, and it has at
  most \<^verbatim>\<open>TOP_N\<close> rows. With fewer than \<open>10 ^ 10\<close> chunks this is what
  \<^verbatim>\<open>merge_chunks\<close> computes from the directory of the chunk files as
  \<^verbatim>\<open>run_chunks\<close> names them.
\<close>

theorem two_stage_reduce:
  "merge_rank TOP_N (concat (map ranked_rows chunks)) = Inr (ranked_rows (concat chunks))
   \<and> (int (length chunks) < 10 ^ 10 \<longrightarrow>
        merge_chunks (zip (map chunk_filename [1..int (length chunks)]) (map ranked_rows chunks))
          = Inr (ranked_rows (concat chunks)))
   \<and> length (ranked_rows (concat chunks)) \<le> TOP_N"
proof (intro conjI impI)
  show "merge_rank TOP_N (concat (map ranked_rows chunks)) = Inr (ranked_rows (concat chunks))"
    by (rule two_stage_rows)
  show "merge_chunks (zip (map chunk_filename [1..int (length chunks)]) (map ranked_rows chunks))
          = Inr (ranked_rows (concat chunks))" if "int (length chunks) < 10 ^ 10"
    using that by (rule merge_chunks_of_chunk_files)
  show "length (ranked_rows (concat chunks)) \<le> TOP_N"
    by (simp add: ranked_rows_def rank_def)
qed

lemma ranked_rows_example:
  "ranked_rows [entry9, entry10] = [row10, row9]" "ranked_rows [entry100] = [row100]"
  "ranked_rows [entry9, entry10, entry100] = [row100, row10, row9]"
  by (simp_all add: ranked_rows_def rank_def sort_reverse_def TOP_N_def to_row_examples)
    (simp_all add: entry9_def entry10_def entry100_def)

lemma chunk_filename_examples:
  "chunk_filename 1 = ''top_         1.csv''" "chunk_filename 2 = ''top_         2.csv''"
  by (simp_all add: chunk_filename_def py_str_def digits.simps digit_char_def eval_nat_numeral)

theorem two_stage_reduce_witness:
  "int (length [[entry9, entry10], [entry100]]) < 10 ^ 10
   \<and> merge_chunks [(''top_         1.csv'', [row10, row9]), (''top_         2.csv'', [row100])]
     = Inr [row100, row10, row9]"
proof -
  have a: "int (length [[entry9, entry10], [entry100]]) < 10 ^ 10"
    by simp
  have "[1..int (length [[entry9, entry10], [entry100]])] = [1, 2]"
    by (simp add: upto.simps)
  then have d: "zip (map chunk_filename [1..int (length [[entry9, entry10], [entry100]])])
                  (map ranked_rows [[entry9, entry10], [entry100]])
      = [(''top_         1.csv'', [row10, row9]), (''top_         2.csv'', [row100])]"
    by (simp add: chunk_filename_examples ranked_rows_example)
  from two_stage_reduce [of "[[entry9, entry10], [entry100]]"] a
  have "merge_chunks (zip (map chunk_filename [1..int (length [[entry9, entry10], [entry100]])])
                  (map ranked_rows [[entry9, entry10], [entry100]]))
      = Inr (ranked_rows (concat [[entry9, entry10], [entry100]]))"
    by blast
  then have "merge_chunks [(''top_         1.csv'', [row10, row9]), (''top_         2.csv'', [row100])]
      = Inr [row100, row10, row9]"
    by (simp only: d) (simp add: ranked_rows_example)
  with a show ?thesis by blast
qed

section \<open>The Fetcher\<close>

lemma subscript_member:
  "subscript data key = Inr v \<longleftrightarrow> member data key = Some v"
  by (cases data) (auto split: option.splits)

lemma subscript_Inl: "(\<exists>e. subscript data key = Inl e) \<longleftrightarrow> member data key = None"
  by (cases data) (auto split: option.splits)

lemma fetch_returns: "\<exists>r. fetch session pid = Inr r"
  by (simp add: fetch_def split: sum.splits)

lemma fetch_request_raises: "session pid = Raises e \<Longrightarrow> fetch session pid = Inr None"
  by (simp add: fetch_def fetch_body_def)

lemma fetch_not_200: "session pid = Responds status body \<Longrightarrow> status \<noteq> 200 \<Longrightarrow> fetch session pid = Inr None"
  by (simp add: fetch_def fetch_body_def)

lemma fetch_body_raises: "session pid = Responds status (Inl e) \<Longrightarrow> fetch session pid = Inr None"
  by (simp add: fetch_def fetch_body_def then_exn_def)

lemma fetch_missing_field:
  assumes "session pid = Responds status (Inr data)" and "\<not> has_required_fields data"
  shows "fetch session pid = Inr None"
proof (cases "status = 200")
  case False
  with assms(1) show ?thesis by (rule fetch_not_200)
next
  case True
  have "\<exists>e. fetch_body (session pid) pid = Inl e"
    using assms True
    by (auto simp: fetch_body_def then_exn_def has_required_fields_def subscript_member
        split: sum.splits option.splits)
  then show ?thesis by (auto simp: fetch_def)
qed


text \<open>
  C1. \<^verbatim>\<open>fetch\<close> always returns a value and lets no exception out. It returns
  \<^verbatim>\<open>None\<close> when the request raises, when the status is not one of 200 to 299, when
  decoding the body raises, and when the payload lacks one of the required fields.
\<close>

theorem fetch_absent_never_raises:
  "(\<exists>r. fetch session pid = Inr r)
   \<and> ((\<exists>e. session pid = Raises e) \<longrightarrow> fetch session pid = Inr None)
   \<and> ((\<exists>status body. session pid = Responds status body \<and> \<not> (200 \<le> status \<and> status < 300))
        \<longrightarrow> fetch session pid = Inr None)
   \<and> ((\<exists>status e. session pid = Responds status (Inl e)) \<longrightarrow> fetch session pid = Inr None)
   \<and> ((\<exists>status data. session pid = Responds status (Inr data) \<and> \<not> has_required_fields data)
        \<longrightarrow> fetch session pid = Inr None)"
proof (intro conjI impI)
  show "\<exists>r. fetch session pid = Inr r" by (rule fetch_returns)
next
  assume "\<exists>e. session pid = Raises e"
  then show "fetch session pid = Inr None" by (auto intro: fetch_request_raises)
next
  assume "\<exists>status body. session pid = Responds status body \<and> \<not> (200 \<le> status \<and> status < 300)"
  then obtain status body where "session pid = Responds status body" "status \<noteq> 200" by auto
  then show "fetch session pid = Inr None" by (rule fetch_not_200)
next
  assume "\<exists>status e. session pid = Responds status (Inl e)"
  then show "fetch session pid = Inr None" by (auto intro: fetch_body_raises)
next
  assume "\<exists>status data. session pid = Responds status (Inr data) \<and> \<not> has_required_fields data"
  then show "fetch session pid = Inr None" by (auto intro: fetch_missing_field)
qed


theorem fetch_absent_never_raises_witness:
  "fetch (\<lambda>pid. Raises TimeoutError) 104 = Inr None
   \<and> fetch (\<lambda>pid. Responds 404 (Inr (JObj [(''code'', JStr ''NotFound'')]))) 104 = Inr None
   \<and> fetch (\<lambda>pid. Responds 200 (Inl JSONDecodeError)) 104 = Inr None
   \<and> fetch (\<lambda>pid. Responds 200 (Inr (JObj [(''title'', JStr ''maze''), (''author'', JNull)]))) 104 = Inr None"
proof (intro conjI)
  show "fetch (\<lambda>pid. Raises TimeoutError) 104 = Inr None"
    using fetch_absent_never_raises [of "\<lambda>pid. Raises TimeoutError" 104] by simp
  show "fetch (\<lambda>pid. Responds 404 (Inr (JObj [(''code'', JStr ''NotFound'')]))) 104 = Inr None"
    using fetch_absent_never_raises [of "\<lambda>pid. Responds 404 (Inr (JObj [(''code'', JStr ''NotFound'')]))" 104]
    by simp
  show "fetch (\<lambda>pid. Responds 200 (Inl JSONDecodeError)) 104 = Inr None"
    using fetch_absent_never_raises [of "\<lambda>pid. Responds 200 (Inl JSONDecodeError)" 104] by simp
  show "fetch (\<lambda>pid. Responds 200 (Inr (JObj [(''title'', JStr ''maze''), (''author'', JNull)]))) 104 = Inr None"
    using fetch_absent_never_raises
      [of "\<lambda>pid. Responds 200 (Inr (JObj [(''title'', JStr ''maze''), (''author'', JNull)]))" 104]
    by (simp add: has_required_fields_def)
qed



section \<open>The partition into chunks\<close>

lemma length_range_up:
  "0 < C \<Longrightarrow> int (length (range_up s stop C)) = max 0 ((stop - s + C - 1) div C)"
proof (induction s stop C rule: range_up.induct)
  case (1 start stop step)
  show ?case
  proof (cases "start < stop")
    case True
    have "stop - start + step - 1 = step + (stop - (start + step) + step - 1)"
      by simp
    then have "(stop - start + step - 1) div step = (stop - (start + step) + step - 1) div step + 1"
      using 1(2) by (simp only: div_add_self1)
    moreover have "0 \<le> (stop - (start + step) + step - 1) div step"
      using True 1(2) by (simp add: pos_imp_zdiv_nonneg_iff)
    ultimately show ?thesis
      using 1 True by (simp add: range_up.simps [of start])
  next
    case False
    have "(stop - start + step - 1) div step \<le> 0"
    proof (cases "stop - start + step - 1 < 0")
      case True
      then show ?thesis using 1(2) by (simp add: pos_imp_zdiv_neg_iff order_less_imp_le)
    next
      case False
      then show ?thesis using \<open>\<not> start < stop\<close> by (simp add: div_pos_pos_trivial)
    qed
    with False show ?thesis
      by (simp add: range_up.simps [of start])
  qed
qed

lemma nth_range_up:
  "0 < C \<Longrightarrow> k < length (range_up s stop C) \<Longrightarrow> range_up s stop C ! k = s + int k * C"
proof (induction s stop C arbitrary: k rule: range_up.induct)
  case (1 start stop step)
  then show ?case
    by (cases k) (auto simp: range_up.simps [of start] algebra_simps split: if_splits)
qed

lemma range_up_less:
  "0 < C \<Longrightarrow> x \<in> set (range_up s stop C) \<Longrightarrow> s \<le> x \<and> x < stop"
proof (induction s stop C rule: range_up.induct)
  case (1 start stop step)
  then show ?case
    by (auto simp: range_up.simps [of start] split: if_splits)
qed

lemma concat_chunks_from:
  "0 < C \<Longrightarrow> s \<le> E + 1 \<Longrightarrow>
   concat (map (\<lambda>start. [start..min (start + C - 1) E]) (range_up s (E + 1) C)) = [s..E]"
proof (induction s "E + 1" C rule: range_up.induct)
  case (1 start step)
  show ?case
  proof (cases "start + step \<le> E + 1")
    case True
    with 1 have ih: "concat (map (\<lambda>start. [start..min (start + step - 1) E]) (range_up (start + step) (E + 1) step))
        = [start + step..E]"
      by simp
    have "[start..E] = [start..start + step - 1] @ [start + step..E]"
      using True 1(2) upto_split2 [of start "start + step - 1" E] by simp
    with ih True 1(2) show ?thesis
      by (simp add: range_up.simps [of start] min_def)
  next
    case False
    then have "range_up (start + step) (E + 1) step = []"
      by (simp add: range_up.simps [of "start + step"])
    with False 1 show ?thesis
      by (auto simp: range_up.simps [of start] min_def)
  qed
qed

lemma ceiling_div_pos:
  fixes a C :: int
  assumes "0 < C"
  shows "\<lceil>real_of_int a / real_of_int C\<rceil> = (a + C - 1) div C"
proof -
  define q where "q = (a + C - 1) div C"
  define r where "r = (a + C - 1) mod C"
  have eq: "q * C + r = a + C - 1"
    by (simp add: q_def r_def)
  have r: "0 \<le> r" "r < C"
    using assms by (simp_all add: r_def)
  have "(q - 1) * C = q * C - C"
    by (simp add: algebra_simps)
  with eq r have lo: "(q - 1) * C < a" and hi: "a \<le> q * C"
    by linarith+
  have "real_of_int ((q - 1) * C) < real_of_int a"
    using lo by (simp only: of_int_less_iff)
  then have 1: "real_of_int q - 1 < real_of_int a / real_of_int C"
    using assms by (simp add: pos_less_divide_eq)
  have "real_of_int a \<le> real_of_int (q * C)"
    using hi by (simp only: of_int_le_iff)
  then have 2: "real_of_int a / real_of_int C \<le> real_of_int q"
    using assms by (simp add: pos_divide_le_eq)
  from 1 2 have "\<lceil>real_of_int a / real_of_int C\<rceil> = q"
    by (rule ceiling_unique)
  then show ?thesis
    by (simp only: q_def)
qed

lemma div_bound:
  fixes a C :: int
  assumes "0 < C"
  shows "a < (a div C + 1) * C"
proof -
  define q where "q = a div C"
  define r where "r = a mod C"
  have "a = q * C + r"
    by (simp add: q_def r_def)
  moreover have "r < C"
    using assms by (simp add: r_def)
  moreover have "(q + 1) * C = q * C + C"
    by (simp add: algebra_simps)
  ultimately have "a < (q + 1) * C"
    by linarith
  then show ?thesis
    by (simp only: q_def)
qed


text \<open>
  C4. For a range from \<open>S\<close> to \<open>E\<close> with \<open>S \<le> E\<close> and a chunk size \<open>C > 0\<close>, the loop
  of \<^verbatim>\<open>run_chunks\<close> yields \<open>\<lceil>(E - S + 1) / C\<rceil>\<close> chunks. Their ids, chunk after chunk,
  are exactly the ids from \<open>S\<close> to \<open>E\<close> in ascending order, so every id is in one chunk
  and in it once. Chunk number \<open>i\<close> starts at \<open>S + i * C\<close>, no chunk is empty or longer
  than \<open>C\<close>, every chunk but the last has length \<open>C\<close> and is followed by the chunk that
  starts at the next id, any two chunks are disjoint, the first starts at \<open>S\<close> and the
  last ends at \<open>E\<close>.
\<close>

theorem chunk_partition:
  assumes C: "0 < C" and SE: "S \<le> E"
  shows "\<exists>cs. chunk_bounds C S E = Inr cs
     \<and> int (length cs) = \<lceil>real_of_int (E - S + 1) / real_of_int C\<rceil>
     \<and> concat (map (\<lambda>(s, e). [s..e]) cs) = [S..E]
     \<and> (\<forall>i<length cs. fst (cs ! i) = S + int i * C
            \<and> fst (cs ! i) \<le> snd (cs ! i) \<and> snd (cs ! i) - fst (cs ! i) + 1 \<le> C)
     \<and> (\<forall>i. Suc i < length cs \<longrightarrow>
            snd (cs ! i) - fst (cs ! i) + 1 = C \<and> fst (cs ! Suc i) = snd (cs ! i) + 1)
     \<and> (\<forall>i j. i < j \<and> j < length cs \<longrightarrow>
            {fst (cs ! i)..snd (cs ! i)} \<inter> {fst (cs ! j)..snd (cs ! j)} = {})
     \<and> cs \<noteq> [] \<and> fst (hd cs) = S \<and> snd (last cs) = E"
proof -
  let ?starts = "range_up S (E + 1) C"
  let ?f = "\<lambda>start. (start, min (start + C - 1) E)"
  let ?cs = "map ?f ?starts"
  have cb: "chunk_bounds C S E = Inr ?cs"
    using C by (simp add: chunk_bounds_def py_range_def)
  have len: "int (length ?starts) = (E - S + C) div C"
  proof -
    have "0 \<le> (E - S + C) div C"
      using C SE by (simp add: pos_imp_zdiv_nonneg_iff)
    moreover have "E + 1 - S + C - 1 = E - S + C"
      by simp
    ultimately show ?thesis
      using length_range_up [OF C, of S "E + 1"] by (simp only: max_def) simp
  qed
  have nth: "\<And>i. i < length ?starts \<Longrightarrow> ?starts ! i = S + int i * C"
    using C by (rule nth_range_up)
  have below: "\<And>i. i < length ?starts \<Longrightarrow> S + int i * C \<le> E"
  proof -
    fix i assume i: "i < length ?starts"
    then have "?starts ! i \<in> set ?starts" by simp
    with range_up_less [OF C] have "?starts ! i < E + 1" by blast
    with nth [OF i] show "S + int i * C \<le> E" by simp
  qed
  have c1: "int (length ?cs) = \<lceil>real_of_int (E - S + 1) / real_of_int C\<rceil>"
  proof -
    have "\<lceil>real_of_int (E - S + 1) / real_of_int C\<rceil> = (E - S + 1 + C - 1) div C"
      using C by (rule ceiling_div_pos)
    also have "E - S + 1 + C - 1 = E - S + C"
      by simp
    finally show ?thesis
      using len by (simp only: length_map)
  qed
  have c2: "concat (map (\<lambda>(s, e). [s..e]) ?cs) = [S..E]"
    using concat_chunks_from [OF C, of S E] SE by (simp add: comp_def)
  have c3: "\<forall>i<length ?cs. fst (?cs ! i) = S + int i * C
            \<and> fst (?cs ! i) \<le> snd (?cs ! i) \<and> snd (?cs ! i) - fst (?cs ! i) + 1 \<le> C"
    using C nth below by auto
  have c4: "\<forall>i. Suc i < length ?cs \<longrightarrow>
            snd (?cs ! i) - fst (?cs ! i) + 1 = C \<and> fst (?cs ! Suc i) = snd (?cs ! i) + 1"
  proof (intro allI impI)
    fix i assume i: "Suc i < length ?cs"
    then have i': "i < length ?starts" "Suc i < length ?starts" by simp_all
    from below [OF i'(2)] have "S + int i * C + C \<le> E"
      by (simp add: algebra_simps)
    then show "snd (?cs ! i) - fst (?cs ! i) + 1 = C \<and> fst (?cs ! Suc i) = snd (?cs ! i) + 1"
      using i' nth [OF i'(1)] nth [OF i'(2)] by (simp add: algebra_simps)
  qed
  have c5: "\<forall>i j. i < j \<and> j < length ?cs \<longrightarrow>
            {fst (?cs ! i)..snd (?cs ! i)} \<inter> {fst (?cs ! j)..snd (?cs ! j)} = {}"
  proof (intro allI impI)
    fix i j assume ij: "i < j \<and> j < length ?cs"
    then have i: "i < length ?starts" and j: "j < length ?starts" by simp_all
    from ij have "int i + 1 \<le> int j" by simp
    then have "(int i + 1) * C \<le> int j * C"
      using C by (simp only: mult_le_cancel_right) simp
    then have "S + int i * C + C - 1 < S + int j * C"
      by (simp add: algebra_simps)
    then have "snd (?cs ! i) < fst (?cs ! j)"
      using i j nth [OF i] nth [OF j] by simp
    then show "{fst (?cs ! i)..snd (?cs ! i)} \<inter> {fst (?cs ! j)..snd (?cs ! j)} = {}"
      by auto
  qed
  have pos: "0 < length ?starts"
  proof -
    have "C \<le> E - S + C" using SE by simp
    then have "C div C \<le> (E - S + C) div C"
      using C by (rule zdiv_mono1)
    moreover have "C div C = 1"
      using C by simp
    ultimately have "0 < int (length ?starts)"
      using len by linarith
    then show ?thesis by (simp only: of_nat_0_less_iff)
  qed
  then have ne: "?cs \<noteq> []" by simp
  have c6: "fst (hd ?cs) = S"
    using pos nth [of 0] by (simp add: hd_conv_nth hd_map)
  have c7: "snd (last ?cs) = E"
  proof -
    let ?n = "length ?starts"
    have "E - S + C < ((E - S + C) div C + 1) * C"
      using C by (rule div_bound)
    then have "E - S < int ?n * C"
      using len by (simp add: algebra_simps)
    moreover have "int (?n - 1) = int ?n - 1"
      using pos by (simp only: of_nat_diff One_nat_def Suc_leI of_nat_1)
    ultimately have "E \<le> S + int (?n - 1) * C + C - 1"
      by (simp add: algebra_simps)
    moreover have "last ?cs = ?f (?starts ! (?n - 1))"
      using pos by (simp add: last_map last_conv_nth)
    moreover have "?starts ! (?n - 1) = S + int (?n - 1) * C"
      using pos by (simp add: nth)
    ultimately show ?thesis by simp
  qed
  from cb c1 c2 c3 c4 c5 ne c6 c7 show ?thesis
    by blast
qed

lemma chunk_bounds_example:
  "chunk_bounds 100000 1 250000 = Inr [(1, 100000), (100001, 200000), (200001, 250000)]"
  by (simp add: chunk_bounds_def py_range_def range_up.simps)

theorem chunk_partition_witness:
  "(0::int) < 100000 \<and> (1::int) \<le> 250000
   \<and> (\<exists>cs. chunk_bounds 100000 1 250000 = Inr cs
         \<and> int (length cs) = \<lceil>real_of_int (250000 - 1 + 1) / real_of_int 100000\<rceil>
         \<and> concat (map (\<lambda>(s, e). [s..e]) cs) = [1..250000]
         \<and> cs \<noteq> [] \<and> fst (hd cs) = 1 \<and> snd (last cs) = 250000)"
proof -
  have a: "(0::int) < 100000" and b: "(1::int) \<le> 250000"
    by simp_all
  from chunk_partition [OF a b] obtain cs where
    "chunk_bounds 100000 1 250000 = Inr cs"
    "int (length cs) = \<lceil>real_of_int (250000 - 1 + 1) / real_of_int 100000\<rceil>"
    "concat (map (\<lambda>(s, e). [s..e]) cs) = [1..250000]"
    "cs \<noteq> []" "fst (hd cs) = 1" "snd (last cs) = 250000"
    by (elim exE conjE)
  with a b show ?thesis
    by (intro conjI exI)
qed

section \<open>The entry point\<close>

lemma gather_fetch: "\<exists>results. gather (map (fetch session) ids) = Inr results"
proof (induction ids)
  case Nil
  then show ?case by simp
next
  case (Cons pid ids)
  from fetch_returns [of session pid] obtain r where "fetch session pid = Inr r" ..
  with Cons show ?case by auto
qed

lemma crawl_projects_not_Raised:
  "crawl_projects session latency start_id end_id output_file w \<noteq> Raised e w'"
proof -
  from gather_fetch [of session "sort_key latency [start_id..end_id]"]
  obtain results where "gather (map (fetch session) (sort_key latency [start_id..end_id])) = Inr results" ..
  then show ?thesis
    by (simp add: crawl_projects_def Let_def split: option.splits)
qed

lemma except_ValueError_crawl_projects:
  "except_ValueError (crawl_projects session latency start_id end_id output_file w)
     = crawl_projects session latency start_id end_id output_file w"
proof (cases "crawl_projects session latency start_id end_id output_file w")
  case (Raised e w')
  with crawl_projects_not_Raised [of session latency start_id end_id output_file w e w']
  show ?thesis by simp
qed (simp_all add: except_ValueError_def)


lemma main_route:
  assumes "py_int first_input = Inr start_id" and "py_int final_input = Inr end_id"
  shows "main first_input final_input session latency w =
     (if end_id - start_id + 1 \<le> CHUNK_SIZE + 1
      then crawl_projects session latency start_id end_id Leaderboard w
      else except_ValueError
             (case run_chunks session latency start_id end_id w of
                Returns w' \<Rightarrow> save_merged w'
              | Raised e w' \<Rightarrow> Raised e w'
              | Unmodelled \<Rightarrow> Unmodelled))"
  using assms by (simp add: main_def except_ValueError_crawl_projects)

lemma py_int_inputs:
  "py_int ''1'' = Inr 1" "py_int ''100001'' = Inr 100001" "py_int ''5'' = Inr 5" "py_int ''3'' = Inr 3"
  "py_int ''10'' = Inr 10" "py_int ''-2'' = Inr (- 2)"
  by (simp_all add: py_int_def strip_def is_space_def unsigned_value_def is_digit_def digit_val_def)

text \<open>
  C2. The range from 1 to 100001 has \<open>CHUNK_SIZE + 1\<close> ids, one more than a chunk
  holds, and the program still takes the single crawl that writes the final leaderboard
  directly, with no chunk files and no merge: the test of the entry point is
  \<^verbatim>\<open>end_id - start_id > CHUNK_SIZE\<close>, which compares the length of the range minus
  one with the chunk size.
\<close>

theorem main_single_crawl_above_chunk_size:
  "main ''1'' ''100001'' session latency w = crawl_projects session latency 1 100001 Leaderboard w
   \<and> CHUNK_SIZE < 100001 - 1 + 1"
  by (simp add: main_route [OF py_int_inputs(1) py_int_inputs(2)] CHUNK_SIZE_def)




section \<open>The chunked path\<close>

text \<open>
  Started without chunk files, \<^verbatim>\<open>run_chunks\<close> leaves one file per chunk, named by
  the chunk number and holding the ranked rows of its chunk, and the merge then writes the
  leaderboard of all the entries of all the chunks.
\<close>

lemma crawl_projects_Returns:
  assumes "crawl_projects session latency start_id end_id output_file w = Returns w'"
  shows "\<exists>entries. crawl_entries session latency start_id end_id = Some entries
     \<and> w' = (write_file output_file (ranked_rows entries) (w\<lparr>requests := requests w @ [start_id..end_id]\<rparr>))
              \<lparr>printed := printed w @ [Saved output_file]\<rparr>"
  using assms
  by (auto simp: crawl_projects_def crawl_entries_def Let_def split: sum.splits option.splits)

lemma update_new_name:
  "name \<notin> set (map fst files) \<Longrightarrow> AList.update name rows files = files @ [(name, rows)]"
  by (induction files) auto

lemma upto_snoc: "1 \<le> k \<Longrightarrow> [1..k] = [1..k - 1] @ [k]"
  using upto_rec2 [of 1 k] by simp

lemma crawl_chunks_files:
  assumes "crawl_chunks session latency k bounds w = Returns w'"
    and "0 < k" and "k + int (length bounds) \<le> 10 ^ 10"
    and "chunk_files w = zip (map chunk_filename [1..k - 1]) artifacts"
    and "int (length artifacts) = k - 1"
  shows "\<exists>chunks. list_all2 (\<lambda>(start, end) entries. crawl_entries session latency start end = Some entries)
                     bounds chunks
     \<and> chunk_files w' = zip (map chunk_filename [1..k - 1 + int (length bounds)])
                            (artifacts @ map ranked_rows chunks)"
  using assms
proof (induction bounds arbitrary: k w artifacts)
  case Nil
  then show ?case by simp
next
  case (Cons b bounds)
  obtain start "end" where b: "b = (start, end)" by (cases b)
  from Cons.prems(1) obtain w1 where
    1: "crawl_projects session latency start end (ChunkFile (chunk_filename k)) w = Returns w1"
    and 2: "crawl_chunks session latency (k + 1) bounds w1 = Returns w'"
    by (auto simp: b split: run.splits)
  from crawl_projects_Returns [OF 1] obtain entries where
    e: "crawl_entries session latency start end = Some entries"
    and w1: "chunk_files w1 = AList.update (chunk_filename k) (ranked_rows entries) (chunk_files w)"
    by (auto simp: write_file_def)
  have k: "k < 10 ^ 10"
    using Cons.prems(3) by simp
  have len: "length (map chunk_filename [1..k - 1]) = length artifacts"
    using Cons.prems(2,5) by simp
  have "sorted_wrt (<) (map chunk_filename [1..k])"
    using k by (rule strict_sorted_chunk_filenames)
  then have "distinct (map chunk_filename [1..k])"
    by (simp add: strict_sorted_iff)
  then have new: "chunk_filename k \<notin> set (map chunk_filename [1..k - 1])"
    using Cons.prems(2) by (simp add: upto_snoc [of k])
  have "map fst (chunk_files w) = map chunk_filename [1..k - 1]"
    using len by (simp only: Cons.prems(4) map_fst_zip)
  with new have "chunk_filename k \<notin> set (map fst (chunk_files w))"
    by simp
  then have "chunk_files w1 = chunk_files w @ [(chunk_filename k, ranked_rows entries)]"
    unfolding w1 by (rule update_new_name)
  also have "\<dots> = zip (map chunk_filename [1..k - 1] @ [chunk_filename k]) (artifacts @ [ranked_rows entries])"
    using len by (simp only: Cons.prems(4) zip_append) simp
  also have "map chunk_filename [1..k - 1] @ [chunk_filename k] = map chunk_filename [1..k + 1 - 1]"
    using Cons.prems(2) by (simp add: upto_snoc [of k])
  finally have f1: "chunk_files w1
      = zip (map chunk_filename [1..k + 1 - 1]) (artifacts @ [ranked_rows entries])" .
  have "\<exists>chunks. list_all2 (\<lambda>(start, end) entries. crawl_entries session latency start end = Some entries)
                     bounds chunks
     \<and> chunk_files w' = zip (map chunk_filename [1..k + 1 - 1 + int (length bounds)])
                            ((artifacts @ [ranked_rows entries]) @ map ranked_rows chunks)"
    using 2 _ _ f1
  proof (rule Cons.IH)
    show "0 < k + 1" using Cons.prems(2) by simp
    show "k + 1 + int (length bounds) \<le> 10 ^ 10" using Cons.prems(3) by simp
    show "int (length (artifacts @ [ranked_rows entries])) = k + 1 - 1"
      using Cons.prems(5) by simp
  qed
  then obtain chunks where
    c: "list_all2 (\<lambda>(start, end) entries. crawl_entries session latency start end = Some entries) bounds chunks"
    and f: "chunk_files w' = zip (map chunk_filename [1..k + 1 - 1 + int (length bounds)])
                            ((artifacts @ [ranked_rows entries]) @ map ranked_rows chunks)"
    by blast
  have "list_all2 (\<lambda>(start, end) entries. crawl_entries session latency start end = Some entries)
          (b # bounds) (entries # chunks)"
    using c e by (simp add: b)
  moreover have "chunk_files w' = zip (map chunk_filename [1..k - 1 + int (length (b # bounds))])
                            (artifacts @ map ranked_rows (entries # chunks))"
    using f by (simp add: algebra_simps)
  ultimately show ?case by blast
qed

lemma chunked_path_leaderboard:
  assumes b: "chunk_bounds CHUNK_SIZE start_id end_id = Inr bounds"
    and n: "int (length bounds) < 10 ^ 10"
    and empty: "chunk_files w = []"
    and r: "run_chunks session latency start_id end_id w = Returns w'"
  shows "\<exists>chunks. list_all2 (\<lambda>(start, end) entries. crawl_entries session latency start end = Some entries)
                     bounds chunks
     \<and> save_merged w' = Returns (w'\<lparr>leaderboard := Some (ranked_rows (concat chunks)),
                                      printed := printed w' @ [FinalSaved]\<rparr>)"
proof -
  from r b have c: "crawl_chunks session latency 1 bounds w = Returns w'"
    by (simp add: run_chunks_def)
  have "\<exists>chunks. list_all2 (\<lambda>(start, end) entries. crawl_entries session latency start end = Some entries)
                     bounds chunks
     \<and> chunk_files w' = zip (map chunk_filename [1..1 - 1 + int (length bounds)])
                            ([] @ map ranked_rows chunks)"
    using c
  proof (rule crawl_chunks_files)
    show "(0::int) < 1" by simp
    show "1 + int (length bounds) \<le> 10 ^ 10" using n by simp
    show "chunk_files w = zip (map chunk_filename [1..1 - 1]) []" using empty by simp
    show "int (length ([] :: row list list)) = 1 - 1" by simp
  qed
  then obtain chunks where
    l: "list_all2 (\<lambda>(start, end) entries. crawl_entries session latency start end = Some entries) bounds chunks"
    and f: "chunk_files w' = zip (map chunk_filename [1..int (length bounds)]) (map ranked_rows chunks)"
    by auto
  from l have len: "length bounds = length chunks"
    by (rule list_all2_lengthD)
  with n have "int (length chunks) < 10 ^ 10"
    by simp
  then have "merge_chunks (chunk_files w') = Inr (ranked_rows (concat chunks))"
    unfolding f len by (rule merge_chunks_of_chunk_files)
  then have "save_merged w' = Returns (w'\<lparr>leaderboard := Some (ranked_rows (concat chunks)),
                                      printed := printed w' @ [FinalSaved]\<rparr>)"
    by (simp add: save_merged_def)
  with l show ?thesis by blast
qed

section \<open>The Admission Controller\<close>

lemma length_filter_update:
  assumes "i < length xs"
  shows "length (filter P (xs[i := y])) + (if P (xs ! i) then 1 else 0)
       = length (filter P xs) + (if P y then 1 else 0)"
  using assms
proof (induction xs arbitrary: i)
  case Nil
  then show ?case by simp
next
  case (Cons x xs)
  then show ?case by (cases i) auto
qed

lemma fire_invariant:
  assumes "fire ev s = Some s'"
  shows "permits s' + holding s' = permits s + holding s"
proof (cases ev)
  case (Acquire i)
  with assms have i: "i < length (points s)" "points s ! i = Waiting" "0 < permits s"
    and s': "s' = s\<lparr>permits := permits s - 1, points := (points s)[i := Acquired]\<rparr>"
    by (auto simp: fire_def split: if_splits)
  from length_filter_update [OF i(1), of "\<lambda>p. p = Acquired \<or> p = InFlight" Acquired] i
  show ?thesis by (simp add: s' holding_def)
next
  case (Request i)
  with assms have i: "i < length (points s)" "points s ! i = Acquired"
    and s': "s' = s\<lparr>points := (points s)[i := InFlight]\<rparr>"
    by (auto simp: fire_def split: if_splits)
  from length_filter_update [OF i(1), of "\<lambda>p. p = Acquired \<or> p = InFlight" InFlight] i
  show ?thesis by (simp add: s' holding_def)
next
  case (Finish i response)
  with assms have i: "i < length (points s)" "points s ! i = InFlight"
    and s': "s' = s\<lparr>permits := permits s + 1, points := (points s)[i := Done]\<rparr>"
    by (auto simp: fire_def split: if_splits)
  from length_filter_update [OF i(1), of "\<lambda>p. p = Acquired \<or> p = InFlight" Done] i
  show ?thesis by (simp add: s' holding_def)
next
  case (Cancel i)
  show ?thesis
  proof (cases "i < length (points s) \<and> points s ! i = Waiting")
    case True
    with assms Cancel have s': "s' = s\<lparr>points := (points s)[i := Done]\<rparr>"
      by (simp add: fire_def)
    from True length_filter_update [of i "points s" "\<lambda>p. p = Acquired \<or> p = InFlight" Done]
    show ?thesis by (simp add: s' holding_def)
  next
    case False
    with assms Cancel have i: "i < length (points s)" "points s ! i = Acquired \<or> points s ! i = InFlight"
      and s': "s' = s\<lparr>permits := permits s + 1, points := (points s)[i := Done]\<rparr>"
      by (auto simp: fire_def split: if_splits)
    from length_filter_update [OF i(1), of "\<lambda>p. p = Acquired \<or> p = InFlight" Done] i(2)
    show ?thesis by (auto simp: s' holding_def)
  qed
qed

lemma run_events_invariant:
  "run_events evs s = Some s' \<Longrightarrow> permits s' + holding s' = permits s + holding s"
proof (induction evs arbitrary: s)
  case Nil
  then show ?case by simp
next
  case (Cons ev evs)
  then obtain s1 where 1: "fire ev s = Some s1" and 2: "run_events evs s1 = Some s'"
    by (auto split: option.splits)
  from Cons.IH [OF 2] fire_invariant [OF 1] show ?case by simp
qed

lemma holding_all_waiting: "holding (all_waiting n) = 0"
  by (simp add: holding_def all_waiting_def)

lemma in_flight_le_holding: "in_flight s \<le> holding s"
proof -
  have "length (filter (\<lambda>p. p = InFlight) xs) \<le> length (filter (\<lambda>p. p = Acquired \<or> p = InFlight) xs)" for xs
    by (induction xs) auto
  then show ?thesis by (simp add: in_flight_def holding_def)
qed

text \<open>
  C9. In every state that any number of tasks reach from the start by any interleaving
  of their steps, the free slots and the slots held add up to the capacity, so at most
  125 requests are in flight. A request is issued only by a task that has acquired a
  slot. A task whose request is in flight can finish with every outcome of the request
  (a response of any status, an exception, the timeout), and finishing gives its slot
  back; when no task holds a slot, all 125 are free.
\<close>

theorem semaphore_bounds_in_flight:
  "run_events evs (all_waiting n) = Some s \<longrightarrow>
     permits s + holding s = SEMAPHORE_CAPACITY
     \<and> in_flight s \<le> 125
     \<and> (\<forall>i response. i < length (points s) \<and> points s ! i = InFlight \<longrightarrow>
           (\<exists>s'. fire (Finish i response) s = Some s' \<and> permits s' = permits s + 1
                 \<and> points s' ! i = Done \<and> holding s' = holding s - 1))
     \<and> (holding s = 0 \<longrightarrow> permits s = 125)
     \<and> (\<forall>i s'. fire (Request i) s = Some s' \<longrightarrow> i < length (points s) \<and> points s ! i = Acquired)"
proof
  assume r: "run_events evs (all_waiting n) = Some s"
  have "permits (all_waiting n) = SEMAPHORE_CAPACITY"
    by (simp add: all_waiting_def)
  with run_events_invariant [OF r] have inv: "permits s + holding s = SEMAPHORE_CAPACITY"
    by (simp add: holding_all_waiting)
  have "in_flight s \<le> holding s" by (rule in_flight_le_holding)
  with inv have b: "in_flight s \<le> 125"
    by (simp add: SEMAPHORE_CAPACITY_def)
  have f: "\<forall>i response. i < length (points s) \<and> points s ! i = InFlight \<longrightarrow>
           (\<exists>s'. fire (Finish i response) s = Some s' \<and> permits s' = permits s + 1
                 \<and> points s' ! i = Done \<and> holding s' = holding s - 1)"
  proof (intro allI impI)
    fix i response assume i: "i < length (points s) \<and> points s ! i = InFlight"
    let ?s' = "s\<lparr>permits := permits s + 1, points := (points s)[i := Done]\<rparr>"
    from i have 1: "fire (Finish i response) s = Some ?s'"
      by (simp add: fire_def)
    from fire_invariant [OF 1] have "holding ?s' = holding s - 1"
      by simp
    with 1 i show "\<exists>s'. fire (Finish i response) s = Some s' \<and> permits s' = permits s + 1
                 \<and> points s' ! i = Done \<and> holding s' = holding s - 1"
      by simp
  qed
  have q: "\<forall>i s'. fire (Request i) s = Some s' \<longrightarrow> i < length (points s) \<and> points s ! i = Acquired"
    by (simp add: fire_def split: if_splits)
  from inv have "holding s = 0 \<longrightarrow> permits s = 125"
    by (simp add: SEMAPHORE_CAPACITY_def)
  with inv b f q show "permits s + holding s = SEMAPHORE_CAPACITY
     \<and> in_flight s \<le> 125
     \<and> (\<forall>i response. i < length (points s) \<and> points s ! i = InFlight \<longrightarrow>
           (\<exists>s'. fire (Finish i response) s = Some s' \<and> permits s' = permits s + 1
                 \<and> points s' ! i = Done \<and> holding s' = holding s - 1))
     \<and> (holding s = 0 \<longrightarrow> permits s = 125)
     \<and> (\<forall>i s'. fire (Request i) s = Some s' \<longrightarrow> i < length (points s) \<and> points s ! i = Acquired)"
    by blast
qed

theorem semaphore_bounds_in_flight_witness:
  "run_events [Acquire 0, Acquire 2, Request 0, Finish 0 (Raises TimeoutError), Request 2] (all_waiting 3)
     = Some \<lparr>permits = 124, points = [Done, Waiting, InFlight]\<rparr>
   \<and> permits \<lparr>permits = 124, points = [Done, Waiting, InFlight]\<rparr>
       + holding \<lparr>permits = 124, points = [Done, Waiting, InFlight]\<rparr> = SEMAPHORE_CAPACITY
   \<and> in_flight \<lparr>permits = 124, points = [Done, Waiting, InFlight]\<rparr> \<le> 125"
proof -
  have r: "run_events [Acquire 0, Acquire 2, Request 0, Finish 0 (Raises TimeoutError), Request 2] (all_waiting 3)
     = Some \<lparr>permits = 124, points = [Done, Waiting, InFlight]\<rparr>"
    by code_simp
  from r semaphore_bounds_in_flight
    [of "[Acquire 0, Acquire 2, Request 0, Finish 0 (Raises TimeoutError), Request 2]" 3
        "\<lparr>permits = 124, points = [Done, Waiting, InFlight]\<rparr>"]
  show ?thesis
    by blast
qed

lemma semaphore_blocks_at_capacity:
  "map_option permits (run_events (map Acquire [0..<125]) (all_waiting 126)) = Some 0"
  "run_events (map Acquire [0..<126]) (all_waiting 126) = None"
  by code_simp+

end
